theory Spec2Isabelle
  imports Main "HOL-Library.AList" "HOL-Library.List_Lexorder" "HOL-Library.Char_ord"
begin

section \<open>Data model\<close>

text \<open>
  A Go \<open>string\<close> is a byte sequence: \<^typ>\<open>string\<close> (a \<^typ>\<open>char list\<close>, one \<^typ>\<open>char\<close> per
  byte), and \<open>len\<close> is \<^const>\<open>length\<close>. A slice expression \<open>s[a:b]\<close> with
  \<open>0 \<le> a \<le> b \<le> len(s)\<close> is \<open>take (b - a) (drop a s)\<close>; where the source can leave that
  range the model returns a panic instead.

  The substitution table \<open>map[string][]string\<close> is an association list read with
  \<^const>\<open>map_of\<close> (\<open>subMap[key]\<close>) and written with \<^const>\<open>AList.update\<close>
  (\<open>m[key] = v\<close>). \<open>for k := range m\<close> visits \<open>map fst m\<close>; Go leaves that order unspecified,
  and the model says at each such loop how the order is fixed.

  \<open>minSubstitute\<close>, \<open>maxSubstitute\<close> and the substitution counters are Go \<open>int\<close>s. A counter
  never exceeds the length of a word, so no arithmetic on it wraps and \<^typ>\<open>int\<close> is exact.

  Each algorithm sends its variants to the channel \<open>out\<close>. The model of an algorithm returns
  the list of values sent, in the order of the sends. The \<open>_trace\<close> form of an algorithm pairs
  every variant sent with the substitution count the code holds at that send; the plain form
  drops the counts again.
\<close>

type_synonym table = "(string \<times> string list) list"

type_synonym chosen = "(string \<times> string) list"

subsection \<open>Functions of Go's standard library that the code calls\<close>

definition HasPrefix :: "string \<Rightarrow> string \<Rightarrow> bool" where
  "HasPrefix s p = (length p \<le> length s \<and> take (length p) s = p)"


text \<open>
  \<open>utf8.DecodeRuneInString\<close>, the width it returns: 0 for the empty string, 1 for an ASCII
  byte and for every byte that does not start a well-formed encoding, otherwise the 2 to 4
  bytes of the encoding (the second byte is checked against the accept range of the first).
\<close>

definition runeWidth :: "string \<Rightarrow> nat" where
  "runeWidth s =
     (if s = [] then 0
      else
        let s0 = (of_char (s ! 0) :: nat) in
        if s0 < 0xC2 \<or> 0xF4 < s0 then 1
        else
          let sz = (if s0 < 0xE0 then 2 else if s0 < 0xF0 then 3 else (4::nat));
              lo = (if s0 = 0xE0 then 0xA0 else if s0 = 0xF0 then 0x90 else (0x80::nat));
              hi = (if s0 = 0xED then 0x9F else if s0 = 0xF4 then 0x8F else (0xBF::nat))
          in
          if length s < sz then 1
          else if (of_char (s ! 1) :: nat) < lo \<or> hi < (of_char (s ! 1) :: nat) then 1
          else if sz \<le> 2 then 2
          else if (of_char (s ! 2) :: nat) < 0x80 \<or> 0xBF < (of_char (s ! 2) :: nat) then 1
          else if sz \<le> 3 then 3
          else if (of_char (s ! 3) :: nat) < 0x80 \<or> 0xBF < (of_char (s ! 3) :: nat) then 1
          else 4)"

lemma runeWidth_pos: "s \<noteq> [] \<Longrightarrow> 0 < runeWidth s"
  by (simp add: runeWidth_def Let_def)

text \<open>
  \<open>strings.ReplaceAll(s, old, new)\<close>: the non-overlapping occurrences of \<open>old\<close> in \<open>s\<close>, found
  left to right, are each replaced by \<open>new\<close>. For an empty \<open>old\<close> Go inserts \<open>new\<close> at the
  start of \<open>s\<close> and after every UTF-8 sequence of \<open>s\<close>.
\<close>

function insertAfterRunes :: "string \<Rightarrow> string \<Rightarrow> string" where
  "insertAfterRunes s new =
     (if s = [] then []
      else take (runeWidth s) s @ new @ insertAfterRunes (drop (runeWidth s) s) new)"
  by pat_completeness auto
termination
  by (relation "measure (\<lambda>(s, new). length s)") (auto simp: runeWidth_pos)

declare insertAfterRunes.simps [simp del]

function replaceNonEmpty :: "string \<Rightarrow> string \<Rightarrow> string \<Rightarrow> string" where
  "replaceNonEmpty s old new =
     (if s = [] \<or> old = [] then s
      else if HasPrefix s old then new @ replaceNonEmpty (drop (length old) s) old new
      else hd s # replaceNonEmpty (tl s) old new)"
  by pat_completeness auto
termination
  by (relation "measure (\<lambda>(s, old, new). length s)") auto

declare replaceNonEmpty.simps [simp del]

definition ReplaceAll :: "string \<Rightarrow> string \<Rightarrow> string \<Rightarrow> string" where
  "ReplaceAll s old new =
     (if old = [] then new @ insertAfterRunes s new else replaceNonEmpty s old new)"

section \<open>The forward occurrence algorithm: \<open>processWord\<close>\<close>

text \<open>
  The closure \<open>generate(currentWord, currentSubCount, start)\<close> of \<open>processWord\<close>. The three
  nested loops run over the positions \<open>i = start, ..., len - 1\<close>, the key lengths
  \<open>len - i, ..., 1\<close> (longest first) and the replacement options of the key found. Every
  recursive call shortens \<open>len(currentWord) - start\<close> by the length of the key replaced.
\<close>

function generate :: "table \<Rightarrow> int \<Rightarrow> int \<Rightarrow> string \<Rightarrow> int \<Rightarrow> nat \<Rightarrow> (string \<times> int) list" where
  "generate subMap minSubstitute maxSubstitute currentWord currentSubCount start =
     concat (map (\<lambda>i.
       concat (map (\<lambda>keyLength.
         if i + keyLength > length currentWord then []
         else (case map_of subMap (take keyLength (drop i currentWord)) of
             None \<Rightarrow> []
           | Some subs \<Rightarrow> concat (map (\<lambda>sub.
               let newWord = take i currentWord @ sub @ drop (i + keyLength) currentWord;
                   newSubCount = currentSubCount + 1
               in if newSubCount > maxSubstitute then []
                  else (if newSubCount \<ge> minSubstitute then [(newWord, newSubCount)] else [])
                       @ generate subMap minSubstitute maxSubstitute newWord newSubCount
                           (i + length sub))
               subs)))
         (rev [1..<length currentWord - i + 1])))
       [start..<length currentWord])"
  by pat_completeness auto
termination
  by (relation "measure (\<lambda>(subMap, mn, mx, w, c, s). length w - s)") auto

declare generate.simps [simp del]

definition processWord_trace :: "string \<Rightarrow> table \<Rightarrow> int \<Rightarrow> int \<Rightarrow> (string \<times> int) list" where
  "processWord_trace word subMap minSubstitute maxSubstitute =
     generate subMap (if minSubstitute = 0 then minSubstitute + 1 else minSubstitute)
       maxSubstitute word 0 0"

definition processWord :: "string \<Rightarrow> table \<Rightarrow> int \<Rightarrow> int \<Rightarrow> string list" where
  "processWord word subMap minSubstitute maxSubstitute =
     map fst (processWord_trace word subMap minSubstitute maxSubstitute)"

section \<open>The pattern-level algorithms\<close>

text \<open>
  Both pattern-level algorithms start by collecting, for every offset \<open>i\<close> of the word and
  every key of the table, the keys that match at \<open>i\<close> into the set \<open>uniquePatterns\<close>, and
  sort the set with \<open>sort.Strings\<close> (bytewise lexicographic order, the order of
  \<^typ>\<open>string\<close> here). The result does not depend on the order in which the table is ranged.
\<close>

definition uniquePatterns :: "string \<Rightarrow> table \<Rightarrow> string set" where
  "uniquePatterns word subMap =
     set (concat (map (\<lambda>i.
       filter (\<lambda>pattern. i + length pattern \<le> length word
                 \<and> take (length pattern) (drop i word) = pattern)
         (map fst subMap))
       [0..<length word]))"

definition sortedPatterns :: "string \<Rightarrow> table \<Rightarrow> string list" where
  "sortedPatterns word subMap = sorted_list_of_set (uniquePatterns word subMap)"

text \<open>
  The loop \<open>for pattern, replacement := range currentSubs { result = strings.ReplaceAll(...) }\<close>.
  \<open>currentSubs\<close> is a Go map, so the order of this loop is not fixed by the language. The
  parameter \<open>rangeOrder\<close> is that order: it maps the entries of the map to the sequence in
  which the loop visits them.
\<close>

definition applySubstitutions :: "(chosen \<Rightarrow> chosen) \<Rightarrow> string \<Rightarrow> chosen \<Rightarrow> string" where
  "applySubstitutions rangeOrder word currentSubs =
     fold (\<lambda>(pattern, replacement) result. ReplaceAll result pattern replacement)
       (rangeOrder currentSubs) word"

function generateAll ::
  "(chosen \<Rightarrow> chosen) \<Rightarrow> string \<Rightarrow> table \<Rightarrow> int \<Rightarrow> int \<Rightarrow> string list \<Rightarrow> chosen \<Rightarrow> nat
     \<Rightarrow> (string \<times> int) list" where
  "generateAll rangeOrder word subMap minSubstitute maxSubstitute patterns currentSubs pos =
     (if pos \<ge> length patterns then
        (let subCount = int (length currentSubs) in
         if subCount < minSubstitute \<or> subCount > maxSubstitute then []
         else [(applySubstitutions rangeOrder word currentSubs, subCount)])
      else
        (let currentPattern = patterns ! pos in
         concat (map (\<lambda>sub.
             generateAll rangeOrder word subMap minSubstitute maxSubstitute patterns
               (AList.update currentPattern sub currentSubs) (pos + 1))
           (case map_of subMap currentPattern of None \<Rightarrow> [] | Some subs \<Rightarrow> subs))
         @ generateAll rangeOrder word subMap minSubstitute maxSubstitute patterns
             currentSubs (pos + 1)))"
  by pat_completeness auto
termination
  by (relation "measure (\<lambda>(ro, w, t, mn, mx, ps, cur, pos). length ps - pos)") auto

declare generateAll.simps [simp del]

definition processWordSubstituteAll_trace ::
  "(chosen \<Rightarrow> chosen) \<Rightarrow> string \<Rightarrow> table \<Rightarrow> int \<Rightarrow> int \<Rightarrow> (string \<times> int) list" where
  "processWordSubstituteAll_trace rangeOrder word subMap minSubstitute maxSubstitute =
     generateAll rangeOrder word subMap minSubstitute maxSubstitute
       (sortedPatterns word subMap) [] 0"

definition processWordSubstituteAll ::
  "(chosen \<Rightarrow> chosen) \<Rightarrow> string \<Rightarrow> table \<Rightarrow> int \<Rightarrow> int \<Rightarrow> string list" where
  "processWordSubstituteAll rangeOrder word subMap minSubstitute maxSubstitute =
     map fst (processWordSubstituteAll_trace rangeOrder word subMap minSubstitute maxSubstitute)"

text \<open>
  \<open>processWordSubstituteAllReverse\<close>: \<open>allSubs\<close> takes the first replacement option of every
  pattern that has one; \<open>generateSubsets\<close> sends the current selection and then drops one
  pattern at a time, at indices from \<open>pos\<close> on.
\<close>

definition allSubs :: "table \<Rightarrow> string list \<Rightarrow> chosen" where
  "allSubs subMap patterns =
     fold (\<lambda>pattern m.
         case map_of subMap pattern of
           None \<Rightarrow> m
         | Some subs \<Rightarrow> (if length subs > 0 then AList.update pattern (subs ! 0) m else m))
       patterns []"

function generateSubsets ::
  "(chosen \<Rightarrow> chosen) \<Rightarrow> string \<Rightarrow> int \<Rightarrow> int \<Rightarrow> string list \<Rightarrow> chosen \<Rightarrow> nat
     \<Rightarrow> (string \<times> int) list" where
  "generateSubsets rangeOrder word minSubstitute maxSubstitute patterns currentSubs pos =
     (let currentCount = int (length currentSubs) in
      if currentCount < minSubstitute then []
      else
        (if currentCount \<le> maxSubstitute
         then [(applySubstitutions rangeOrder word currentSubs, currentCount)] else [])
        @ (if currentCount \<le> minSubstitute then []
           else concat (map (\<lambda>i.
               let pattern = patterns ! i in
               case map_of currentSubs pattern of
                 None \<Rightarrow> []
               | Some r \<Rightarrow>
                   generateSubsets rangeOrder word minSubstitute maxSubstitute patterns
                     (filter (\<lambda>(k, v). k \<noteq> pattern) currentSubs) (i + 1))
             [pos..<length patterns])))"
  by pat_completeness auto
termination
  by (relation "measure (\<lambda>(ro, w, mn, mx, ps, cur, pos). length ps - pos)") auto

declare generateSubsets.simps [simp del]

definition processWordSubstituteAllReverse_trace ::
  "(chosen \<Rightarrow> chosen) \<Rightarrow> string \<Rightarrow> table \<Rightarrow> int \<Rightarrow> int \<Rightarrow> (string \<times> int) list" where
  "processWordSubstituteAllReverse_trace rangeOrder word subMap minSubstitute maxSubstitute =
     (let patterns = sortedPatterns word subMap;
          totalPossible = int (length patterns)
      in if totalPossible < minSubstitute then []
         else generateSubsets rangeOrder word minSubstitute maxSubstitute patterns
                (allSubs subMap patterns) 0)"

definition processWordSubstituteAllReverse ::
  "(chosen \<Rightarrow> chosen) \<Rightarrow> string \<Rightarrow> table \<Rightarrow> int \<Rightarrow> int \<Rightarrow> string list" where
  "processWordSubstituteAllReverse rangeOrder word subMap minSubstitute maxSubstitute =
     map fst
       (processWordSubstituteAllReverse_trace rangeOrder word subMap minSubstitute maxSubstitute)"

section \<open>The reverse occurrence algorithm: \<open>processWordReverse\<close>\<close>

text \<open>
  \<open>generateCombinations(n, k)\<close> recurses on \<open>(i, k - 1)\<close> for \<open>i = n - 1, ..., k - 1\<close>. For
  \<open>k \<ge> 0\<close> the depth of the recursion is \<open>k\<close>. For \<open>k < 0 \<le> n\<close> the call
  \<open>generateCombinations(k - 1, k - 1)\<close> is reached, which calls
  \<open>generateCombinations(k - 2, k - 2)\<close> and so on without end. The model therefore counts the
  depth of the recursion with \<open>fuel\<close>: \<^const>\<open>None\<close> is a recursion deeper than \<open>fuel\<close>.
\<close>

primrec generateCombinations :: "nat \<Rightarrow> int \<Rightarrow> int \<Rightarrow> int list list option" where
  "generateCombinations 0 n k = None"
| "generateCombinations (Suc fuel) n k =
     (if k = 0 then Some [[]]
      else if n < k then Some []
      else map_option concat
             (those (map (\<lambda>i. map_option (map (\<lambda>sub. i # sub))
                                  (generateCombinations fuel i (k - 1)))
                       (rev [k - 1..n - 1]))))"

record position =
  start :: nat
  keyLength :: nat
  subs :: "string list"

datatype panic = IndexOutOfRange | SliceBoundsOutOfRange

datatype status = Returned | Panicked panic | OutOfFuel

text \<open>The first loop of \<open>processWordReverse\<close>: every offset, every key length from 1 up.\<close>

definition findPositions :: "string \<Rightarrow> table \<Rightarrow> position list" where
  "findPositions word subMap =
     concat (map (\<lambda>i.
       concat (map (\<lambda>l.
           case map_of subMap (take l (drop i word)) of
             None \<Rightarrow> []
           | Some ss \<Rightarrow> [\<lparr>start = i, keyLength = l, subs = ss\<rparr>])
         [1..<length word - i + 1]))
       [0..<length word])"

text \<open>\<open>positions[idx]\<close>: Go panics when the index is out of range.\<close>

definition index :: "'a list \<Rightarrow> int \<Rightarrow> 'a option" where
  "index xs idx = (if idx < 0 \<or> int (length xs) \<le> idx then None else Some (xs ! nat idx))"

text \<open>
  \<open>validSubstitutionPositions\<close>: the closed intervals of the chosen positions, sorted by their
  first component with \<open>sort.Slice\<close>, must not touch. \<open>sort.Slice\<close> is not stable, but two
  intervals with the same start overlap and are adjacent in every sorted order, so the
  result is the same for each of them; the model sorts with \<^const>\<open>sort_key\<close>.
\<close>

fun disjointIntervals :: "(int \<times> int) list \<Rightarrow> bool" where
  "disjointIntervals (a # b # rest) =
     (if fst b \<le> snd a then False else disjointIntervals (b # rest))"
| "disjointIntervals rest = True"

definition validSubstitutionPositions :: "int list \<Rightarrow> position list \<Rightarrow> bool option" where
  "validSubstitutionPositions combo positions =
     map_option (\<lambda>intervals. disjointIntervals (sort_key fst intervals))
       (those (map (\<lambda>idx.
           map_option (\<lambda>pos. (int (start pos), int (start pos) + int (keyLength pos) - 1))
             (index positions idx))
         combo))"

text \<open>
  The loop that applies a combination: \<open>pos.subs[0]\<close> panics on an empty replacement list,
  and each of the two slice expressions of
  \<open>result[:actualStart] + sub + result[actualStart+pos.keyLength:]\<close> panics when its bound is
  negative or beyond \<open>len(result)\<close>.
\<close>

fun applyCombination :: "position list \<Rightarrow> int list \<Rightarrow> string \<Rightarrow> int \<Rightarrow> panic + string" where
  "applyCombination positions [] result offset = Inr result"
| "applyCombination positions (idx # combo) result offset =
     (case index positions idx of
        None \<Rightarrow> Inl IndexOutOfRange
      | Some pos \<Rightarrow>
          (case subs pos of
             [] \<Rightarrow> Inl IndexOutOfRange
           | sub # others \<Rightarrow>
               (let actualStart = int (start pos) + offset in
                if actualStart < 0 \<or> int (length result) < actualStart
                   \<or> int (length result) < actualStart + int (keyLength pos)
                then Inl SliceBoundsOutOfRange
                else applyCombination positions combo
                       (take (nat actualStart) result @ sub
                          @ drop (nat (actualStart + int (keyLength pos))) result)
                       (offset + (int (length sub) - int (keyLength pos))))))"

text \<open>
  \<open>for _, combo := range combinations\<close>: the variants sent, each with the number of spans
  replaced in it, and how the loop ended.
\<close>

fun sendCombinations ::
  "string \<Rightarrow> position list \<Rightarrow> int list list \<Rightarrow> (string \<times> int) list \<times> status" where
  "sendCombinations word positions [] = ([], Returned)"
| "sendCombinations word positions (combo # combinations) =
     (case validSubstitutionPositions combo positions of
        None \<Rightarrow> ([], Panicked IndexOutOfRange)
      | Some False \<Rightarrow> sendCombinations word positions combinations
      | Some True \<Rightarrow>
          (case applyCombination positions combo word 0 of
             Inl p \<Rightarrow> ([], Panicked p)
           | Inr result \<Rightarrow>
               (case sendCombinations word positions combinations of
                  (sent, st) \<Rightarrow> ((result, int (length combo)) # sent, st))))"

text \<open>\<open>for subCount := actualMax; subCount >= minSubstitute; subCount--\<close>, over the list of its counts.\<close>

fun countDown ::
  "nat \<Rightarrow> string \<Rightarrow> position list \<Rightarrow> int list \<Rightarrow> (string \<times> int) list \<times> status" where
  "countDown fuel word positions [] = ([], Returned)"
| "countDown fuel word positions (subCount # counts) =
     (case generateCombinations fuel (int (length positions)) subCount of
        None \<Rightarrow> ([], OutOfFuel)
      | Some combinations \<Rightarrow>
          (case sendCombinations word positions combinations of
             (sent, Returned) \<Rightarrow>
               (case countDown fuel word positions counts of
                  (sent', st) \<Rightarrow> (sent @ sent', st))
           | (sent, st) \<Rightarrow> (sent, st)))"

definition processWordReverse_trace ::
  "nat \<Rightarrow> string \<Rightarrow> table \<Rightarrow> int \<Rightarrow> int \<Rightarrow> (string \<times> int) list \<times> status" where
  "processWordReverse_trace fuel word subMap minSubstitute maxSubstitute =
     (let positions = findPositions word subMap;
          totalPossible = int (length positions)
      in if totalPossible < minSubstitute then ([], Returned)
         else
           (let actualMax = (if maxSubstitute > totalPossible then totalPossible
                             else maxSubstitute)
            in countDown fuel word positions (rev [minSubstitute..actualMax])))"

definition processWordReverse ::
  "nat \<Rightarrow> string \<Rightarrow> table \<Rightarrow> int \<Rightarrow> int \<Rightarrow> string list \<times> status" where
  "processWordReverse fuel word subMap minSubstitute maxSubstitute =
     (case processWordReverse_trace fuel word subMap minSubstitute maxSubstitute of
        (sent, st) \<Rightarrow> (map fst sent, st))"

section \<open>Loading a table: \<open>readSubstitutionTable\<close>\<close>



























section \<open>Notions used in the statements\<close>

text \<open>
  For \<open>k \<ge> 0\<close> the combinations are described without fuel: \<open>descending n k\<close> lists, largest
  first element first, the strictly descending lists of length \<open>k\<close> over \<open>{0..<n}\<close>. It is
  a device of the proofs; \<^const>\<open>generateCombinations\<close> is the model of the code.
\<close>

primrec descending :: "int \<Rightarrow> nat \<Rightarrow> int list list" where
  "descending n 0 = [[]]"
| "descending n (Suc k) =
     concat (map (\<lambda>i. map (\<lambda>sub. i # sub) (descending i k)) (rev [int k..n - 1]))"


section \<open>Worked examples of the forward occurrence algorithm\<close>

text \<open>
  Claim C2. With the table \<open>o=0\<close>, the word \<open>foo\<close>, \<open>min = 1\<close> and \<open>max = 2\<close>, \<open>processWord\<close>
  sends \<open>f0o\<close>, \<open>f00\<close> and \<open>fo0\<close>, in this order, and nothing else: exactly the three
  variants of the claim, each once.
\<close>

theorem processWord_foo:
  "processWord ''foo'' [(''o'', [''0''])] 1 2 = [''f0o'', ''f00'', ''fo0'']
   \<and> set (processWord ''foo'' [(''o'', [''0''])] 1 2) = {''f0o'', ''fo0'', ''f00''}
   \<and> distinct (processWord ''foo'' [(''o'', [''0''])] 1 2)"
proof -
  have sent: "processWord ''foo'' [(''o'', [''0''])] 1 2 = [''f0o'', ''f00'', ''fo0'']"
    by code_simp
  show ?thesis
    unfolding sent by auto
qed

section \<open>The combination enumerator\<close>

lemma those_map_Some:
  "(\<And>x. x \<in> set xs \<Longrightarrow> g x = Some (f x)) \<Longrightarrow> those (map g xs) = Some (map f xs)"
  by (induction xs) simp_all

lemma generateCombinations_descending:
  "k < fuel \<Longrightarrow> generateCombinations fuel n (int k) = Some (descending n k)"
proof (induction fuel arbitrary: n k)
  case 0
  then show ?case by simp
next
  case (Suc fuel)
  show ?case
  proof (cases k)
    case 0
    then show ?thesis by simp
  next
    case (Suc j)
    with Suc.prems have j: "j < fuel" by simp
    have inner: "those (map (\<lambda>i. map_option (map (\<lambda>sub. i # sub))
                    (generateCombinations fuel i (int j))) (rev [int j..n - 1]))
                 = Some (map (\<lambda>i. map (\<lambda>sub. i # sub) (descending i j)) (rev [int j..n - 1]))"
      by (rule those_map_Some) (simp add: Suc.IH [OF j])
    show ?thesis
    proof (cases "n < int k")
      case True
      then show ?thesis using Suc by simp
    next
      case False
      then show ?thesis using Suc inner by simp
    qed
  qed
qed

lemma descending_length_bound:
  assumes "0 \<le> i" "distinct c" "set c \<subseteq> {0..<i}"
  shows "int (length c) \<le> i"
proof -
  have "length c = card (set c)" using assms(2) by (simp add: distinct_card)
  also have "\<dots> \<le> card {0..<i}" using assms(3) by (intro card_mono) simp_all
  also have "\<dots> = nat i" by simp
  finally show ?thesis using assms(1) by simp
qed

lemma sorted_wrt_greater_distinct: "sorted_wrt (>) (c :: int list) \<Longrightarrow> distinct c"
  by (induction c) auto

lemma descending_member:
  "c \<in> set (descending n k) \<longleftrightarrow> length c = k \<and> sorted_wrt (>) c \<and> set c \<subseteq> {0..<n}"
proof (induction k arbitrary: n c)
  case 0
  then show ?case by auto
next
  case (Suc k)
  show ?case
  proof
    assume "c \<in> set (descending n (Suc k))"
    then obtain i c' where i: "int k \<le> i" "i \<le> n - 1" and c': "c' \<in> set (descending i k)"
      and c: "c = i # c'"
      by auto
    from c' have "length c' = k" "sorted_wrt (>) c'" "set c' \<subseteq> {0..<i}"
      by (simp_all add: Suc.IH)
    with i c show "length c = Suc k \<and> sorted_wrt (>) c \<and> set c \<subseteq> {0..<n}"
      by auto
  next
    assume r: "length c = Suc k \<and> sorted_wrt (>) c \<and> set c \<subseteq> {0..<n}"
    then obtain i c' where c: "c = i # c'" by (cases c) auto
    with r have l: "length c' = k" and s: "sorted_wrt (>) c'" and b: "\<forall>x\<in>set c'. x < i"
      and i: "0 \<le> i" "i < n" and sub: "set c' \<subseteq> {0..<n}"
      by auto
    from sub b have sub': "set c' \<subseteq> {0..<i}" by auto
    with s l have mem: "c' \<in> set (descending i k)" by (simp add: Suc.IH)
    have "int (length c') \<le> i"
      using i(1) sorted_wrt_greater_distinct [OF s] sub' by (rule descending_length_bound)
    with l have "int k \<le> i" by simp
    with i mem c show "c \<in> set (descending n (Suc k))" by auto
  qed
qed

lemma distinct_concat_map:
  assumes "distinct xs" "\<And>x. x \<in> set xs \<Longrightarrow> distinct (f x)"
    "\<And>x y. x \<in> set xs \<Longrightarrow> y \<in> set xs \<Longrightarrow> x \<noteq> y \<Longrightarrow> set (f x) \<inter> set (f y) = {}"
  shows "distinct (concat (map f xs))"
  using assms
proof (induction xs)
  case Nil
  then show ?case by simp
next
  case (Cons a xs)
  have "distinct (concat (map f xs))" using Cons by simp
  moreover have "distinct (f a)" using Cons.prems(2) by simp
  moreover have "set (f a) \<inter> set (f y) = {}" if "y \<in> set xs" for y
    using Cons.prems(1) that by (intro Cons.prems(3)) auto
  ultimately show ?case by auto
qed

lemma descending_distinct: "distinct (descending n k)"
proof (induction k arbitrary: n)
  case 0
  then show ?case by simp
next
  case (Suc k)
  show ?case
    unfolding descending.simps
  proof (rule distinct_concat_map)
    show "distinct (rev [int k..n - 1])" by simp
  next
    fix i
    show "distinct (map (\<lambda>sub. i # sub) (descending i k))"
      by (simp add: distinct_map Suc.IH inj_on_def)
  next
    fix i j :: int
    assume "i \<noteq> j"
    then show "set (map (\<lambda>sub. i # sub) (descending i k))
                \<inter> set (map (\<lambda>sub. j # sub) (descending j k)) = {}"
      by auto
  qed
qed

lemma sorted_wrt_greater_unique:
  assumes "sorted_wrt (>) (a :: int list)" "sorted_wrt (>) b" "set a = set b"
  shows "a = b"
proof -
  have "sorted_wrt (<) (rev a)" "sorted_wrt (<) (rev b)"
    using assms(1,2) by (simp_all add: sorted_wrt_rev)
  moreover have "set (rev a) = set (rev b)" using assms(3) by simp
  ultimately have "rev a = rev b" by (metis strict_sorted_equal)
  then show ?thesis by simp
qed

lemma descending_distinct_sets: "distinct (map set (descending n k))"
proof -
  have "inj_on set (set (descending n k))"
    by (rule inj_onI) (auto simp: descending_member intro: sorted_wrt_greater_unique)
  then show ?thesis by (simp add: distinct_map descending_distinct)
qed

lemma descending_sets: "set (map set (descending n k)) = {S. S \<subseteq> {0..<n} \<and> card S = k}"
proof (intro set_eqI iffI)
  fix S
  assume "S \<in> set (map set (descending n k))"
  then obtain c where c: "c \<in> set (descending n k)" and S: "S = set c" by auto
  from c have "length c = k" "sorted_wrt (>) c" "set c \<subseteq> {0..<n}"
    by (simp_all add: descending_member)
  with S show "S \<in> {S. S \<subseteq> {0..<n} \<and> card S = k}"
    by (simp add: distinct_card sorted_wrt_greater_distinct)
next
  fix S
  assume "S \<in> {S. S \<subseteq> {0..<n} \<and> card S = k}"
  then have sub: "S \<subseteq> {0..<n}" and card: "card S = k" by simp_all
  from sub have fin: "finite S" by (rule finite_subset) simp
  let ?c = "rev (sorted_list_of_set S)"
  have "length ?c = k" using card by simp
  moreover have "sorted_wrt (>) ?c"
    by (simp add: sorted_wrt_rev)
  moreover have "set ?c = S" using fin by simp
  ultimately have "?c \<in> set (descending n k)" using sub by (simp add: descending_member)
  then have "set ?c \<in> set (map set (descending n k))" by (simp del: set_rev)
  then show "S \<in> set (map set (descending n k))" using \<open>set ?c = S\<close> by simp
qed

text \<open>
  Claim C5. For \<open>n \<ge> 0\<close> and \<open>k \<ge> 0\<close>, \<open>generateCombinations(n, k)\<close> returns (a recursion
  depth above \<open>k\<close> is enough): the list holding only the empty subset when \<open>k = 0\<close>; the empty
  list when \<open>k > n\<close>; and in every case lists without repeated elements, of length \<open>k\<close>,
  that are pairwise different as sets and are together exactly the \<open>k\<close>-element subsets of
  \<open>{0..<n}\<close>. \<open>generateCombinations(4, 2)\<close> returns the six lists shown.
\<close>

theorem generateCombinations_subsets:
  assumes "0 \<le> n" "0 \<le> k" "nat k < fuel"
  shows "(\<exists>cs. generateCombinations fuel n k = Some cs
           \<and> (k = 0 \<longrightarrow> cs = [[]])
           \<and> (n < k \<longrightarrow> cs = [])
           \<and> (\<forall>c\<in>set cs. distinct c \<and> int (length c) = k)
           \<and> distinct (map set cs)
           \<and> set (map set cs) = {S. S \<subseteq> {0..<n} \<and> int (card S) = k})
         \<and> generateCombinations 3 4 2 = Some [[3, 2], [3, 1], [3, 0], [2, 1], [2, 0], [1, 0]]"
proof -
  define j where "j = nat k"
  with assms have k: "k = int j" and j: "j < fuel" by simp_all
  have run: "generateCombinations fuel n k = Some (descending n j)"
    unfolding k using j by (rule generateCombinations_descending)
  have zero: "k = 0 \<longrightarrow> descending n j = [[]]" using k by auto
  have none: "n < k \<longrightarrow> descending n j = []"
  proof
    assume "n < k"
    then obtain j' where "j = Suc j'" "n - 1 < int j'" using k assms(1) by (cases j) auto
    then show "descending n j = []" by simp
  qed
  have each: "\<forall>c\<in>set (descending n j). distinct c \<and> int (length c) = k"
    using k by (simp add: descending_member sorted_wrt_greater_distinct)
  have sets: "set (map set (descending n j)) = {S. S \<subseteq> {0..<n} \<and> int (card S) = k}"
    using k by (simp only: descending_sets) auto
  have general: "\<exists>cs. generateCombinations fuel n k = Some cs
           \<and> (k = 0 \<longrightarrow> cs = [[]])
           \<and> (n < k \<longrightarrow> cs = [])
           \<and> (\<forall>c\<in>set cs. distinct c \<and> int (length c) = k)
           \<and> distinct (map set cs)
           \<and> set (map set cs) = {S. S \<subseteq> {0..<n} \<and> int (card S) = k}"
    using run zero none each descending_distinct_sets [of n j] sets by blast
  have four_two:
    "generateCombinations 3 4 2 = Some [[3, 2], [3, 1], [3, 0], [2, 1], [2, 0], [1, 0]]"
    by code_simp
  from general four_two show ?thesis by (rule conjI)
qed

theorem generateCombinations_subsets_witness:
  "\<exists>cs. generateCombinations 3 4 2 = Some cs
     \<and> length cs = 6
     \<and> distinct (map set cs)
     \<and> set (map set cs) = {S. S \<subseteq> {0..<4} \<and> int (card S) = 2}"
proof -
  have "(0::int) \<le> 4" "(0::int) \<le> 2" "nat 2 < (3::nat)" by simp_all
  from generateCombinations_subsets [OF this]
  obtain cs where cs: "generateCombinations 3 4 2 = Some cs" "distinct (map set cs)"
      "set (map set cs) = {S. S \<subseteq> {0..<4} \<and> int (card S) = 2}"
    and six: "generateCombinations 3 4 2 = Some [[3, 2], [3, 1], [3, 0], [2, 1], [2, 0], [1, 0]]"
    by blast
  from cs(1) six have "cs = [[3, 2], [3, 1], [3, 0], [2, 1], [2, 0], [1, 0]]" by simp
  then have "length cs = 6" by simp
  with cs show ?thesis by blast
qed

section \<open>Substitution counts of the variants sent\<close>

text \<open>One turn of each recursive closure, read off its defining equation.\<close>

lemma in_set_concat_map:
  assumes "x \<in> set (concat (map f xs))"
  obtains y where "y \<in> set xs" "x \<in> set (f y)"
  using assms by auto

lemma generate_mem:
  assumes "(v, c) \<in> set (generate subMap mn mx w cnt st)"
  shows "\<exists>i l ss sb. st \<le> i \<and> i < length w \<and> 1 \<le> l \<and> i + l \<le> length w
        \<and> map_of subMap (take l (drop i w)) = Some ss \<and> sb \<in> set ss \<and> cnt + 1 \<le> mx
        \<and> (mn \<le> cnt + 1 \<and> v = take i w @ sb @ drop (i + l) w \<and> c = cnt + 1
            \<or> (v, c) \<in> set (generate subMap mn mx (take i w @ sb @ drop (i + l) w) (cnt + 1)
                              (i + length sb)))"
proof -
  from assms have "(v, c) \<in> set (concat (map (\<lambda>i.
       concat (map (\<lambda>keyLength.
         if i + keyLength > length w then []
         else (case map_of subMap (take keyLength (drop i w)) of
             None \<Rightarrow> []
           | Some opts \<Rightarrow> concat (map (\<lambda>sub.
               let newWord = take i w @ sub @ drop (i + keyLength) w;
                   newSubCount = cnt + 1
               in if newSubCount > mx then []
                  else (if newSubCount \<ge> mn then [(newWord, newSubCount)] else [])
                       @ generate subMap mn mx newWord newSubCount (i + length sub))
               opts)))
         (rev [1..<length w - i + 1])))
       [st..<length w]))"
    by (subst (asm) generate.simps)
  then obtain i where i: "i \<in> set [st..<length w]"
    and outer: "(v, c) \<in> set (concat (map (\<lambda>keyLength.
         if i + keyLength > length w then []
         else (case map_of subMap (take keyLength (drop i w)) of
             None \<Rightarrow> []
           | Some opts \<Rightarrow> concat (map (\<lambda>sub.
               let newWord = take i w @ sub @ drop (i + keyLength) w;
                   newSubCount = cnt + 1
               in if newSubCount > mx then []
                  else (if newSubCount \<ge> mn then [(newWord, newSubCount)] else [])
                       @ generate subMap mn mx newWord newSubCount (i + length sub))
               opts)))
         (rev [1..<length w - i + 1])))"
    by (rule in_set_concat_map)
  from outer obtain l where l: "l \<in> set (rev [1..<length w - i + 1])"
    and inner: "(v, c) \<in> set (if i + l > length w then []
         else (case map_of subMap (take l (drop i w)) of
             None \<Rightarrow> []
           | Some opts \<Rightarrow> concat (map (\<lambda>sub.
               let newWord = take i w @ sub @ drop (i + l) w;
                   newSubCount = cnt + 1
               in if newSubCount > mx then []
                  else (if newSubCount \<ge> mn then [(newWord, newSubCount)] else [])
                       @ generate subMap mn mx newWord newSubCount (i + length sub))
               opts)))"
    by (rule in_set_concat_map)
  have fits: "i + l \<le> length w"
  proof (rule ccontr)
    assume "\<not> i + l \<le> length w"
    with inner show False by simp
  qed
  with inner have inner1: "(v, c) \<in> set (case map_of subMap (take l (drop i w)) of
             None \<Rightarrow> []
           | Some opts \<Rightarrow> concat (map (\<lambda>sub.
               let newWord = take i w @ sub @ drop (i + l) w;
                   newSubCount = cnt + 1
               in if newSubCount > mx then []
                  else (if newSubCount \<ge> mn then [(newWord, newSubCount)] else [])
                       @ generate subMap mn mx newWord newSubCount (i + length sub))
               opts))"
    by simp
  then obtain ss where ss: "map_of subMap (take l (drop i w)) = Some ss"
    by (cases "map_of subMap (take l (drop i w))") simp_all
  with inner1 have "(v, c) \<in> set (concat (map (\<lambda>sub.
               let newWord = take i w @ sub @ drop (i + l) w;
                   newSubCount = cnt + 1
               in if newSubCount > mx then []
                  else (if newSubCount \<ge> mn then [(newWord, newSubCount)] else [])
                       @ generate subMap mn mx newWord newSubCount (i + length sub))
               ss))"
    by simp
  then obtain sb where sb: "sb \<in> set ss"
    and inner3: "(v, c) \<in> set (let newWord = take i w @ sb @ drop (i + l) w;
                   newSubCount = cnt + 1
               in if newSubCount > mx then []
                  else (if newSubCount \<ge> mn then [(newWord, newSubCount)] else [])
                       @ generate subMap mn mx newWord newSubCount (i + length sb))"
    by (rule in_set_concat_map)
  have le: "cnt + 1 \<le> mx"
  proof (rule ccontr)
    assume "\<not> cnt + 1 \<le> mx"
    with inner3 show False by (simp add: Let_def)
  qed
  with inner3 have "(v, c) \<in> set ((if cnt + 1 \<ge> mn then [(take i w @ sb @ drop (i + l) w, cnt + 1)] else [])
       @ generate subMap mn mx (take i w @ sb @ drop (i + l) w) (cnt + 1) (i + length sb))"
    by (simp add: Let_def)
  then have last: "mn \<le> cnt + 1 \<and> v = take i w @ sb @ drop (i + l) w \<and> c = cnt + 1
            \<or> (v, c) \<in> set (generate subMap mn mx (take i w @ sb @ drop (i + l) w) (cnt + 1)
                              (i + length sb))"
    by (cases "mn \<le> cnt + 1") simp_all
  from i l have "st \<le> i" "i < length w" "1 \<le> l" by auto
  with fits ss sb le last show ?thesis by blast
qed

lemma generate_count:
  "(v, c) \<in> set (generate subMap mn mx w cnt st) \<Longrightarrow> mn \<le> c \<and> c \<le> mx \<and> cnt < c"
proof (induction "length w - st" arbitrary: w st cnt rule: less_induct)
  case less
  from generate_mem [OF less.prems] obtain i l ss sb where
    i: "st \<le> i" "i < length w" and l: "1 \<le> l" "i + l \<le> length w"
    and ss: "map_of subMap (take l (drop i w)) = Some ss" "sb \<in> set ss"
    and le: "cnt + 1 \<le> mx"
    and mem: "mn \<le> cnt + 1 \<and> v = take i w @ sb @ drop (i + l) w \<and> c = cnt + 1
            \<or> (v, c) \<in> set (generate subMap mn mx (take i w @ sb @ drop (i + l) w) (cnt + 1)
                              (i + length sb))"
    by (elim exE conjE) (rule that)
  from mem show ?case
  proof
    assume "mn \<le> cnt + 1 \<and> v = take i w @ sb @ drop (i + l) w \<and> c = cnt + 1"
    with le show ?thesis by simp
  next
    assume deeper: "(v, c) \<in> set (generate subMap mn mx (take i w @ sb @ drop (i + l) w) (cnt + 1)
                              (i + length sb))"
    have "length (take i w @ sb @ drop (i + l) w) - (i + length sb) < length w - st"
      using i l by simp
    then have "mn \<le> c \<and> c \<le> mx \<and> cnt + 1 < c"
      using deeper by (rule less.hyps)
    then show ?thesis by simp
  qed
qed

lemma generateAll_mem:
  assumes "(v, c) \<in> set (generateAll ro w t mn mx ps cur pos)"
  shows "if length ps \<le> pos
      then mn \<le> int (length cur) \<and> int (length cur) \<le> mx
           \<and> v = applySubstitutions ro w cur \<and> c = int (length cur)
      else (\<exists>ss sb. map_of t (ps ! pos) = Some ss \<and> sb \<in> set ss
              \<and> (v, c) \<in> set (generateAll ro w t mn mx ps (AList.update (ps ! pos) sb cur) (pos + 1)))
           \<or> (v, c) \<in> set (generateAll ro w t mn mx ps cur (pos + 1))"
proof (cases "length ps \<le> pos")
  case True
  with assms show ?thesis
    unfolding generateAll.simps [of ro w t mn mx ps cur pos] by (auto simp: Let_def split: if_splits)
next
  case False
  with assms have "(v, c) \<in> set (concat (map (\<lambda>sub.
             generateAll ro w t mn mx ps (AList.update (ps ! pos) sub cur) (pos + 1))
           (case map_of t (ps ! pos) of None \<Rightarrow> [] | Some opts \<Rightarrow> opts)))
      \<or> (v, c) \<in> set (generateAll ro w t mn mx ps cur (pos + 1))"
    unfolding generateAll.simps [of ro w t mn mx ps cur pos] by (simp add: Let_def)
  then show ?thesis
  proof
    assume "(v, c) \<in> set (concat (map (\<lambda>sub.
             generateAll ro w t mn mx ps (AList.update (ps ! pos) sub cur) (pos + 1))
           (case map_of t (ps ! pos) of None \<Rightarrow> [] | Some opts \<Rightarrow> opts)))"
    then obtain sb where "sb \<in> set (case map_of t (ps ! pos) of None \<Rightarrow> [] | Some opts \<Rightarrow> opts)"
      and deeper: "(v, c) \<in> set (generateAll ro w t mn mx ps (AList.update (ps ! pos) sb cur) (pos + 1))"
      by (rule in_set_concat_map)
    then obtain ss where "map_of t (ps ! pos) = Some ss" "sb \<in> set ss"
      by (cases "map_of t (ps ! pos)") simp_all
    with deeper False show ?thesis by auto
  next
    assume "(v, c) \<in> set (generateAll ro w t mn mx ps cur (pos + 1))"
    with False show ?thesis by simp
  qed
qed

lemma generateAll_count:
  "(v, c) \<in> set (generateAll ro w t mn mx ps cur pos) \<Longrightarrow> mn \<le> c \<and> c \<le> mx"
proof (induction "length ps - pos" arbitrary: cur pos rule: less_induct)
  case less
  show ?case
  proof (cases "length ps \<le> pos")
    case True
    with less.prems show ?thesis
      using generateAll_mem [of v c ro w t mn mx ps cur pos] by simp
  next
    case False
    then have smaller: "length ps - (pos + 1) < length ps - pos" by simp
    from False less.prems obtain cur' where
      "(v, c) \<in> set (generateAll ro w t mn mx ps cur' (pos + 1))"
      using generateAll_mem [of v c ro w t mn mx ps cur pos] by auto
    with less.hyps [OF smaller] show ?thesis by blast
  qed
qed

lemma generateSubsets_mem:
  assumes "(v, c) \<in> set (generateSubsets ro w mn mx ps cur pos)"
  shows "mn \<le> int (length cur)
     \<and> (int (length cur) \<le> mx \<and> v = applySubstitutions ro w cur \<and> c = int (length cur)
        \<or> mn < int (length cur)
          \<and> (\<exists>i r. pos \<le> i \<and> i < length ps \<and> map_of cur (ps ! i) = Some r
                \<and> (v, c) \<in> set (generateSubsets ro w mn mx ps
                                   (filter (\<lambda>(k, v). k \<noteq> ps ! i) cur) (i + 1))))"
proof -
  from assms have mn: "mn \<le> int (length cur)"
    unfolding generateSubsets.simps [of ro w mn mx ps cur pos]
    by (auto simp: Let_def split: if_splits)
  with assms consider
    (here) "int (length cur) \<le> mx" "v = applySubstitutions ro w cur" "c = int (length cur)"
    | (drop) "mn < int (length cur)" "(v, c) \<in> set (concat (map (\<lambda>i.
               let pattern = ps ! i in
               case map_of cur pattern of
                 None \<Rightarrow> []
               | Some r \<Rightarrow>
                   generateSubsets ro w mn mx ps
                     (filter (\<lambda>(k, v). k \<noteq> pattern) cur) (i + 1))
             [pos..<length ps]))"
    unfolding generateSubsets.simps [of ro w mn mx ps cur pos]
    by (auto simp: Let_def split: if_splits)
  then show ?thesis
  proof cases
    case here
    with mn show ?thesis by simp
  next
    case drop
    from drop(2) obtain i where i: "i \<in> set [pos..<length ps]"
      and inner: "(v, c) \<in> set (case map_of cur (ps ! i) of
                 None \<Rightarrow> []
               | Some r \<Rightarrow>
                   generateSubsets ro w mn mx ps
                     (filter (\<lambda>(k, v). k \<noteq> ps ! i) cur) (i + 1))"
      unfolding Let_def by (rule in_set_concat_map)
    from inner obtain r where "map_of cur (ps ! i) = Some r"
      "(v, c) \<in> set (generateSubsets ro w mn mx ps (filter (\<lambda>(k, v). k \<noteq> ps ! i) cur) (i + 1))"
      by (cases "map_of cur (ps ! i)") simp_all
    with i drop(1) mn show ?thesis by auto
  qed
qed

lemma generateSubsets_count:
  "(v, c) \<in> set (generateSubsets ro w mn mx ps cur pos) \<Longrightarrow> mn \<le> c \<and> c \<le> mx"
proof (induction "length ps - pos" arbitrary: cur pos rule: less_induct)
  case less
  from less.prems consider
    (here) "mn \<le> int (length cur)" "int (length cur) \<le> mx" "c = int (length cur)"
    | (drop) i where "pos \<le> i" "i < length ps"
        "(v, c) \<in> set (generateSubsets ro w mn mx ps (filter (\<lambda>(k, v). k \<noteq> ps ! i) cur) (i + 1))"
    using generateSubsets_mem [of v c ro w mn mx ps cur pos] by blast
  then show ?case
  proof cases
    case here
    then show ?thesis by simp
  next
    case drop
    then have "length ps - (i + 1) < length ps - pos" by simp
    from less.hyps [OF this drop(3)] show ?thesis .
  qed
qed

text \<open>The reverse occurrence algorithm: every variant is sent with the size of its combination.\<close>

lemma those_eq_Some: "those ys = Some xs \<Longrightarrow> ys = map Some xs"
  by (induction ys arbitrary: xs) (auto split: option.splits)

lemma generateCombinations_length:
  "generateCombinations fuel n k = Some cs \<Longrightarrow> c \<in> set cs \<Longrightarrow> int (length c) = k"
proof (induction fuel arbitrary: n k cs c)
  case 0
  then show ?case by simp
next
  case (Suc fuel)
  show ?case
  proof (cases "k = 0 \<or> n < k")
    case True
    with Suc.prems show ?thesis by (auto split: if_splits)
  next
    case False
    with Suc.prems(1) obtain parts where
      parts: "those (map (\<lambda>i. map_option (map (\<lambda>sub. i # sub))
                (generateCombinations fuel i (k - 1))) (rev [k - 1..n - 1])) = Some parts"
      and cs: "cs = concat parts"
      by auto
    from those_eq_Some [OF parts] have
      eq: "map (\<lambda>i. map_option (map (\<lambda>sub. i # sub))
                (generateCombinations fuel i (k - 1))) (rev [k - 1..n - 1]) = map Some parts" .
    from Suc.prems(2) cs obtain part where part: "part \<in> set parts" and c: "c \<in> set part"
      by auto
    from part have "Some part \<in> set (map Some parts)" by simp
    with eq obtain i where
      "map_option (map (\<lambda>sub. i # sub)) (generateCombinations fuel i (k - 1)) = Some part"
      by (metis (no_types, lifting) in_set_conv_nth length_map nth_map)
    then obtain cs' where cs': "generateCombinations fuel i (k - 1) = Some cs'"
      and p: "part = map (\<lambda>sub. i # sub) cs'"
      by auto
    from c p obtain c' where "c' \<in> set cs'" "c = i # c'" by auto
    with Suc.IH [OF cs'] show ?thesis by fastforce
  qed
qed

lemma sendCombinations_count:
  "(v, c) \<in> set (fst (sendCombinations w ps cs)) \<Longrightarrow> \<exists>combo\<in>set cs. c = int (length combo)"
proof (induction cs arbitrary: v c)
  case Nil
  then show ?case by simp
next
  case (Cons combo cs)
  then show ?case
    by (auto split: option.splits bool.splits sum.splits prod.splits)
qed

lemma countDown_count:
  "(v, c) \<in> set (fst (countDown fuel w ps counts)) \<Longrightarrow> c \<in> set counts"
proof (induction counts arbitrary: v c)
  case Nil
  then show ?case by simp
next
  case (Cons k counts)
  show ?case
  proof (cases "generateCombinations fuel (int (length ps)) k")
    case None
    with Cons.prems show ?thesis by simp
  next
    case (Some cs)
    obtain sent st where sc: "sendCombinations w ps cs = (sent, st)" by (cases "sendCombinations w ps cs")
    obtain sent' st' where cd: "countDown fuel w ps counts = (sent', st')"
      by (cases "countDown fuel w ps counts")
    from Cons.prems Some sc cd have "(v, c) \<in> set sent \<or> (v, c) \<in> set sent'"
      by (cases st) auto
    then show ?thesis
    proof
      assume "(v, c) \<in> set sent"
      with sc have "(v, c) \<in> set (fst (sendCombinations w ps cs))" by simp
      then obtain combo where "combo \<in> set cs" "c = int (length combo)"
        using sendCombinations_count by blast
      with generateCombinations_length [OF Some] show ?thesis by simp
    next
      assume "(v, c) \<in> set sent'"
      with cd have "(v, c) \<in> set (fst (countDown fuel w ps counts))" by simp
      with Cons.IH show ?thesis by simp
    qed
  qed
qed

lemma processWordReverse_trace_count:
  assumes "(v, c) \<in> set (fst (processWordReverse_trace fuel w t mn mx))"
  shows "mn \<le> c \<and> c \<le> mx"
proof -
  let ?ps = "findPositions w t"
  let ?top = "if mx > int (length ?ps) then int (length ?ps) else mx"
  from assms have "(v, c) \<in> set (fst (countDown fuel w ?ps (rev [mn..?top])))"
    by (simp add: processWordReverse_trace_def Let_def split: if_splits)
  then have "c \<in> set (rev [mn..?top])" by (rule countDown_count)
  then show ?thesis by (auto split: if_splits)
qed

text \<open>
  Claim C1. For every word, table and bounds, every variant sent by one of the four
  algorithms carries a substitution count between \<open>min\<close> and \<open>max\<close> inclusive. The count is
  the one the algorithm holds at the send: the number of spans replaced on the path
  (\<open>processWord\<close>), the size of the combination applied (\<open>processWordReverse\<close>, whatever the
  recursion depth allowed and also for the variants sent before a panic), and the number of
  patterns selected in \<open>currentSubs\<close> (the two pattern-level algorithms, for every order in
  which the selection is ranged).
\<close>

theorem substitution_count_within_bounds:
  "(\<forall>(v, c)\<in>set (processWord_trace word subMap mn mx). mn \<le> c \<and> c \<le> mx)
   \<and> (\<forall>(v, c)\<in>set (fst (processWordReverse_trace fuel word subMap mn mx)). mn \<le> c \<and> c \<le> mx)
   \<and> (\<forall>(v, c)\<in>set (processWordSubstituteAll_trace ro word subMap mn mx). mn \<le> c \<and> c \<le> mx)
   \<and> (\<forall>(v, c)\<in>set (processWordSubstituteAllReverse_trace ro word subMap mn mx).
         mn \<le> c \<and> c \<le> mx)"
proof (intro conjI ballI)
  fix x
  assume x: "x \<in> set (processWord_trace word subMap mn mx)"
  obtain v c where vc: "x = (v, c)" by (cases x)
  with x have "(v, c) \<in> set (generate subMap (if mn = 0 then mn + 1 else mn) mx word 0 0)"
    by (simp add: processWord_trace_def)
  from generate_count [OF this] vc show "case x of (v, c) \<Rightarrow> mn \<le> c \<and> c \<le> mx"
    by (auto split: if_splits)
next
  fix x
  assume x: "x \<in> set (fst (processWordReverse_trace fuel word subMap mn mx))"
  obtain v c where vc: "x = (v, c)" by (cases x)
  with x processWordReverse_trace_count [of v c fuel word subMap mn mx]
  show "case x of (v, c) \<Rightarrow> mn \<le> c \<and> c \<le> mx" by simp
next
  fix x
  assume x: "x \<in> set (processWordSubstituteAll_trace ro word subMap mn mx)"
  obtain v c where vc: "x = (v, c)" by (cases x)
  with x generateAll_count [of v c ro word subMap mn mx "sortedPatterns word subMap" "[]" 0]
  show "case x of (v, c) \<Rightarrow> mn \<le> c \<and> c \<le> mx"
    by (simp add: processWordSubstituteAll_trace_def)
next
  fix x
  assume x: "x \<in> set (processWordSubstituteAllReverse_trace ro word subMap mn mx)"
  obtain v c where vc: "x = (v, c)" by (cases x)
  with x have "(v, c) \<in> set (generateSubsets ro word mn mx (sortedPatterns word subMap)
                 (allSubs subMap (sortedPatterns word subMap)) 0)"
    by (simp add: processWordSubstituteAllReverse_trace_def Let_def split: if_splits)
  from generateSubsets_count [OF this] vc
  show "case x of (v, c) \<Rightarrow> mn \<le> c \<and> c \<le> mx" by simp
qed

theorem substitution_count_within_bounds_witness:
  "(''f00'', 2) \<in> set (processWord_trace ''foo'' [(''o'', [''0''])] 1 2) \<and> (1::int) \<le> 2 \<and> (2::int) \<le> 2
   \<and> (''f00'', 2) \<in> set (fst (processWordReverse_trace 3 ''foo'' [(''o'', [''0''])] 1 2))
   \<and> (''f00'', 1) \<in> set (processWordSubstituteAll_trace (\<lambda>m. m) ''foo'' [(''o'', [''0''])] 1 2)
   \<and> (''f00'', 1) \<in> set (processWordSubstituteAllReverse_trace (\<lambda>m. m) ''foo'' [(''o'', [''0''])] 1 2)"
proof -
  have a: "(''f00'', 2) \<in> set (processWord_trace ''foo'' [(''o'', [''0''])] 1 2)"
    by code_simp
  have b: "(''f00'', 2) \<in> set (fst (processWordReverse_trace 3 ''foo'' [(''o'', [''0''])] 1 2))"
    by code_simp
  have c: "(''f00'', 1) \<in> set (processWordSubstituteAll_trace (\<lambda>m. m) ''foo'' [(''o'', [''0''])] 1 2)"
    by code_simp
  have d: "(''f00'', 1) \<in> set (processWordSubstituteAllReverse_trace (\<lambda>m. m) ''foo'' [(''o'', [''0''])] 1 2)"
    by code_simp
  from a substitution_count_within_bounds [of "''foo''" "[(''o'', [''0''])]" 1 2 3 "\<lambda>m. m"]
  have "(1::int) \<le> 2 \<and> (2::int) \<le> 2" by blast
  with a b c d show ?thesis by blast
qed

section \<open>The forward algorithm at \<open>min = 0\<close>\<close>

text \<open>
  Claim C7, as amended. In \<open>processWord\<close> a \<open>min\<close> of 0 is raised to 1: for every word, table
  and \<open>max\<close> the variants sent with \<open>min = 0\<close> are, in the same order, those sent with
  \<open>min = 1\<close>, and every variant sent has had at least one span replaced.
\<close>

theorem processWord_min_zero:
  "processWord word subMap 0 mx = processWord word subMap 1 mx
   \<and> (\<forall>(v, c)\<in>set (processWord_trace word subMap 0 mx). 1 \<le> c)"
proof
  show "processWord word subMap 0 mx = processWord word subMap 1 mx"
    by (simp add: processWord_def processWord_trace_def)
next
  show "\<forall>(v, c)\<in>set (processWord_trace word subMap 0 mx). 1 \<le> c"
  proof (intro ballI)
    fix x
    assume x: "x \<in> set (processWord_trace word subMap 0 mx)"
    obtain v c where vc: "x = (v, c)" by (cases x)
    with x have "(v, c) \<in> set (generate subMap 1 mx word 0 0)"
      by (simp add: processWord_trace_def)
    from generate_count [OF this] vc show "case x of (v, c) \<Rightarrow> 1 \<le> c" by simp
  qed
qed

theorem processWord_min_zero_witness:
  "processWord ''foo'' [(''o'', [''0''])] 0 2 = processWord ''foo'' [(''o'', [''0''])] 1 2
   \<and> (''f0o'', 1) \<in> set (processWord_trace ''foo'' [(''o'', [''0''])] 0 2)
   \<and> (1::int) \<le> 1"
proof -
  have sent: "(''f0o'', 1) \<in> set (processWord_trace ''foo'' [(''o'', [''0''])] 0 2)"
    by code_simp
  with processWord_min_zero [of "''foo''" "[(''o'', [''0''])]" 2]
  show ?thesis by blast
qed

text \<open>
  The claim as it was stated also says that the input word itself is never sent. With the
  table \<open>a=a\<close> the word \<open>a\<close> is sent for the input \<open>a\<close>: the replacement of a span can
  reproduce the input.
\<close>

theorem processWord_sends_input_word:
  "processWord ''a'' [(''a'', [''a''])] 0 1 = [''a'']
   \<and> ''a'' \<in> set (processWord ''a'' [(''a'', [''a''])] 0 1)"
proof -
  have "processWord ''a'' [(''a'', [''a''])] 0 1 = [''a'']" by code_simp
  then show ?thesis by simp
qed

section \<open>The empty table\<close>

lemma generate_empty_table: "generate [] mn mx w cnt st = []"
  by (subst generate.simps) auto

lemma sortedPatterns_empty_table: "sortedPatterns w [] = []"
  by (simp add: sortedPatterns_def uniquePatterns_def)

lemma findPositions_empty_table: "findPositions w [] = []"
  by (simp add: findPositions_def)

lemma generateAll_no_patterns:
  "generateAll ro w t mn mx [] [] 0 =
     (if 0 < mn \<or> 0 > mx then [] else [(applySubstitutions ro w [], 0)])"
  by (subst generateAll.simps) simp

lemma generateSubsets_no_patterns:
  "generateSubsets ro w mn mx [] [] 0 =
     (if 0 < mn then [] else if 0 \<le> mx then [(applySubstitutions ro w [], 0)] else [])"
  by (subst generateSubsets.simps) simp

lemma applySubstitutions_none: "ro [] = [] \<Longrightarrow> applySubstitutions ro w [] = w"
  by (simp add: applySubstitutions_def)

text \<open>
  Claim C6, as amended. With an empty table, for every word and every bounds pair:
  \<^item> \<open>processWord\<close> sends nothing;
  \<^item> \<open>processWordSubstituteAll\<close> and \<open>processWordSubstituteAllReverse\<close> send nothing unless
    \<open>min \<le> 0 \<le> max\<close>; then a substitution count of 0 is within the bounds and each of them
    sends one variant, the word after the replacements of the empty selection, which is
    the unchanged word (ranging over an empty map visits nothing);
  \<^item> \<open>processWordReverse\<close> returns, for \<open>min \<ge> 0\<close> and also for \<open>max < min\<close>, having sent the
    unchanged word once when \<open>min = 0 \<le> max\<close> and nothing otherwise (any recursion depth
    above 0 is enough, and none is needed when \<open>min \<ge> 1\<close>).
\<close>

theorem empty_table_variants:
  "processWord word [] mn mx = []
   \<and> processWordSubstituteAll ro word [] mn mx
       = (if mn \<le> 0 \<and> 0 \<le> mx then [applySubstitutions ro word []] else [])
   \<and> processWordSubstituteAllReverse ro word [] mn mx
       = (if mn \<le> 0 \<and> 0 \<le> mx then [applySubstitutions ro word []] else [])
   \<and> (ro [] = [] \<longrightarrow> applySubstitutions ro word [] = word)
   \<and> ((0 \<le> mn \<or> mx < mn) \<and> 0 < fuel \<longrightarrow>
         processWordReverse fuel word [] mn mx
           = (if mn = 0 \<and> 0 \<le> mx then [word] else [], Returned))
   \<and> (1 \<le> mn \<longrightarrow> processWordReverse fuel word [] mn mx = ([], Returned))"
proof (intro conjI impI)
  show "processWord word [] mn mx = []"
    by (simp add: processWord_def processWord_trace_def generate_empty_table)
next
  show "processWordSubstituteAll ro word [] mn mx
       = (if mn \<le> 0 \<and> 0 \<le> mx then [applySubstitutions ro word []] else [])"
    by (auto simp: processWordSubstituteAll_def processWordSubstituteAll_trace_def
        sortedPatterns_empty_table generateAll_no_patterns)
next
  show "processWordSubstituteAllReverse ro word [] mn mx
       = (if mn \<le> 0 \<and> 0 \<le> mx then [applySubstitutions ro word []] else [])"
    by (auto simp: processWordSubstituteAllReverse_def processWordSubstituteAllReverse_trace_def
        sortedPatterns_empty_table allSubs_def generateSubsets_no_patterns)
next
  assume "ro [] = []"
  then show "applySubstitutions ro word [] = word" by (rule applySubstitutions_none)
next
  assume a: "(0 \<le> mn \<or> mx < mn) \<and> 0 < fuel"
  then obtain f where f: "fuel = Suc f" by (cases fuel) auto
  have valid: "validSubstitutionPositions [] [] = Some True"
    by (simp add: validSubstitutionPositions_def)
  show "processWordReverse fuel word [] mn mx
           = (if mn = 0 \<and> 0 \<le> mx then [word] else [], Returned)"
  proof (cases "mn = 0 \<and> 0 \<le> mx")
    case True
    then have top: "(if 0 < mx then 0 else mx) = 0" by simp
    have "countDown fuel word [] [0] = ([(word, 0)], Returned)"
      using f valid by simp
    with True top show ?thesis
      by (simp add: processWordReverse_def processWordReverse_trace_def
          findPositions_empty_table)
  next
    case False
    with a have "0 < mn \<or> [mn..(if 0 < mx then 0 else mx)] = []" by auto
    with False show ?thesis
      by (auto simp: processWordReverse_def processWordReverse_trace_def
          findPositions_empty_table)
  qed
next
  assume "1 \<le> mn"
  then show "processWordReverse fuel word [] mn mx = ([], Returned)"
    by (simp add: processWordReverse_def processWordReverse_trace_def findPositions_empty_table)
qed

theorem empty_table_variants_witness:
  "processWord ''foo'' [] 1 15 = []
   \<and> processWordReverse 1 ''foo'' [] 1 15 = ([], Returned)
   \<and> processWordSubstituteAll (\<lambda>m. m) ''foo'' [] 1 15 = []
   \<and> processWordSubstituteAllReverse (\<lambda>m. m) ''foo'' [] 1 15 = []
   \<and> processWordReverse 1 ''foo'' [] 0 15 = ([''foo''], Returned)
   \<and> processWordSubstituteAll (\<lambda>m. m) ''foo'' [] 0 15 = [''foo'']
   \<and> processWordSubstituteAllReverse (\<lambda>m. m) ''foo'' [] (- 1) 15 = [''foo'']
   \<and> processWordSubstituteAll (\<lambda>m. m) ''foo'' [] (- 2) (- 1) = []
   \<and> processWordReverse 1 ''foo'' [] 0 (- 1) = ([], Returned)"
  using empty_table_variants [of "''foo''" 1 15 "\<lambda>m. m" 1]
    empty_table_variants [of "''foo''" 0 15 "\<lambda>m. m" 1]
    empty_table_variants [of "''foo''" "- 1" 15 "\<lambda>m. m" 1]
    empty_table_variants [of "''foo''" "- 2" "- 1" "\<lambda>m. m" 1]
    empty_table_variants [of "''foo''" 0 "- 1" "\<lambda>m. m" 1]
  by simp

text \<open>
  The claim as it was stated asks for no variant at all, regardless of the bounds. With
  \<open>min = 0\<close>, the default of the command line, three of the algorithms send the word.
\<close>

theorem empty_table_sends_word:
  "processWordReverse 1 ''foo'' [] 0 15 = ([''foo''], Returned)
   \<and> processWordSubstituteAll (\<lambda>m. m) ''foo'' [] 0 15 = [''foo'']
   \<and> processWordSubstituteAllReverse (\<lambda>m. m) ''foo'' [] 0 15 = [''foo'']"
  by code_simp

section \<open>The pattern-level forward algorithm\<close>










section \<open>Lines of a table file\<close>













section \<open>Recursion depth of the reverse occurrence algorithm\<close>

text \<open>
  A negative \<open>k\<close> with \<open>k \<le> n\<close> is beyond every recursion depth: the first call of the loop
  is again of this kind.
\<close>

lemma those_None: "None \<in> set ys \<Longrightarrow> those ys = None"
  by (induction ys) (auto split: option.splits)

lemma generateCombinations_negative:
  "k < 0 \<Longrightarrow> k \<le> n \<Longrightarrow> generateCombinations fuel n k = None"
proof (induction fuel arbitrary: n k)
  case 0
  then show ?case by simp
next
  case (Suc fuel)
  from Suc.prems have first: "generateCombinations fuel (n - 1) (k - 1) = None"
    by (intro Suc.IH) simp_all
  from Suc.prems have "n - 1 \<in> set (rev [k - 1..n - 1])" by simp
  then have "None \<in> set (map (\<lambda>i. map_option (map (\<lambda>sub. i # sub))
                                 (generateCombinations fuel i (k - 1)))
                          (rev [k - 1..n - 1]))"
    unfolding set_map using first by (metis (mono_tags, lifting) image_eqI option.map_disc_iff)
  then have "those (map (\<lambda>i. map_option (map (\<lambda>sub. i # sub))
      (generateCombinations fuel i (k - 1))) (rev [k - 1..n - 1])) = None"
    by (rule those_None)
  with Suc.prems show ?case by simp
qed

text \<open>
  With \<open>min \<ge> 0\<close> a recursion depth above the number of occurrences is enough: the run
  ends by returning or by a panic, and a larger depth changes nothing.
\<close>

lemma sendCombinations_status: "snd (sendCombinations w ps cs) \<noteq> OutOfFuel"
  by (induction cs) (auto split: option.splits bool.splits sum.splits prod.splits)

lemma countDown_enough_fuel:
  assumes "\<And>k. k \<in> set counts \<Longrightarrow> 0 \<le> k \<and> nat k < fuel \<and> nat k < fuel'"
  shows "countDown fuel w ps counts = countDown fuel' w ps counts
         \<and> snd (countDown fuel w ps counts) \<noteq> OutOfFuel"
  using assms
proof (induction counts)
  case Nil
  then show ?case by simp
next
  case (Cons k counts)
  from Cons.prems [of k] have k: "0 \<le> k" "nat k < fuel" "nat k < fuel'" by simp_all
  have a: "generateCombinations fuel (int (length ps)) k = Some (descending (int (length ps)) (nat k))"
    using generateCombinations_descending [OF k(2), of "int (length ps)"] k(1) by simp
  have b: "generateCombinations fuel' (int (length ps)) k = Some (descending (int (length ps)) (nat k))"
    using generateCombinations_descending [OF k(3), of "int (length ps)"] k(1) by simp
  have rest: "countDown fuel w ps counts = countDown fuel' w ps counts
         \<and> snd (countDown fuel w ps counts) \<noteq> OutOfFuel"
    using Cons.prems by (intro Cons.IH) simp
  obtain sent st where sc: "sendCombinations w ps (descending (int (length ps)) (nat k)) = (sent, st)"
    by (cases "sendCombinations w ps (descending (int (length ps)) (nat k))")
  with sendCombinations_status [of w ps "descending (int (length ps)) (nat k)"]
  have st: "st \<noteq> OutOfFuel" by simp
  obtain sent' st' where cd: "countDown fuel w ps counts = (sent', st')"
    by (cases "countDown fuel w ps counts")
  with rest have cd': "countDown fuel' w ps counts = (sent', st')" and st': "st' \<noteq> OutOfFuel"
    by simp_all
  from a b sc cd cd' st st' show ?case by (cases st) simp_all
qed

lemma processWordReverse_enough_fuel:
  assumes "0 \<le> mn" "length (findPositions w t) < fuel" "length (findPositions w t) < fuel'"
  shows "processWordReverse fuel w t mn mx = processWordReverse fuel' w t mn mx
         \<and> snd (processWordReverse fuel w t mn mx) \<noteq> OutOfFuel"
proof -
  let ?ps = "findPositions w t"
  let ?top = "if mx > int (length ?ps) then int (length ?ps) else mx"
  have "0 \<le> k \<and> nat k < fuel \<and> nat k < fuel'" if "k \<in> set (rev [mn..?top])" for k
    using that assms by (auto split: if_splits)
  then have "countDown fuel w ?ps (rev [mn..?top]) = countDown fuel' w ?ps (rev [mn..?top])
         \<and> snd (countDown fuel w ?ps (rev [mn..?top])) \<noteq> OutOfFuel"
    by (rule countDown_enough_fuel)
  then show ?thesis
    by (auto simp: processWordReverse_def processWordReverse_trace_def Let_def split: prod.splits)
qed

text \<open>
  With a negative \<open>min \<le> max\<close> the count-down reaches a negative \<open>subCount\<close>, and the run never
  returns: it ends in a panic or recurses beyond every depth.
\<close>

lemma countDown_negative:
  assumes "\<exists>k\<in>set counts. k < 0 \<and> k \<le> int (length ps)"
  shows "snd (countDown fuel w ps counts) \<noteq> Returned"
  using assms
proof (induction counts)
  case Nil
  then show ?case by simp
next
  case (Cons k counts)
  show ?case
  proof (cases "generateCombinations fuel (int (length ps)) k")
    case None
    then show ?thesis by simp
  next
    case (Some cs)
    with generateCombinations_negative [of k "int (length ps)" fuel]
    have "\<not> (k < 0 \<and> k \<le> int (length ps))" by auto
    with Cons.prems have "\<exists>k\<in>set counts. k < 0 \<and> k \<le> int (length ps)" by auto
    then have rest: "snd (countDown fuel w ps counts) \<noteq> Returned" by (rule Cons.IH)
    obtain sent st where sc: "sendCombinations w ps cs = (sent, st)"
      by (cases "sendCombinations w ps cs")
    obtain sent' st' where cd: "countDown fuel w ps counts = (sent', st')"
      by (cases "countDown fuel w ps counts")
    from Some sc cd rest show ?thesis by (cases st) simp_all
  qed
qed

lemma processWordReverse_negative_min:
  assumes "mn < 0" "mn \<le> mx"
  shows "snd (processWordReverse fuel w t mn mx) \<noteq> Returned"
proof -
  let ?ps = "findPositions w t"
  let ?top = "if mx > int (length ?ps) then int (length ?ps) else mx"
  from assms have "mn \<in> set (rev [mn..?top])" by simp
  with assms(1) have "\<exists>k\<in>set (rev [mn..?top]). k < 0 \<and> k \<le> int (length ?ps)"
    by (intro bexI [of _ mn]) simp_all
  then have "snd (countDown fuel w ?ps (rev [mn..?top])) \<noteq> Returned"
    by (rule countDown_negative)
  with assms(1) show ?thesis
    by (auto simp: processWordReverse_def processWordReverse_trace_def Let_def split: prod.splits)
qed

section \<open>Where the code departs from its description\<close>

text \<open>
  Claim C4. \<open>processWordReverse\<close> adds to the start of each selected occurrence the
  \<open>offset\<close> gathered from the replacements already applied, which is right when the
  occurrences are applied from left to right. \<open>generateCombinations\<close> lists every
  combination with its largest index first, and the occurrences are indexed from left to
  right, so the loop applies them from right to left. With the table \<open>a=bb\<close>, the word
  \<open>aa\<close> and \<open>min = max = 2\<close> the second replacement lands one byte too far right and the
  variant sent is \<open>abbb\<close>; the forward algorithm sends \<open>bbbb\<close> for the same input.
\<close>

theorem processWordReverse_offset_misplaces_span:
  "generateCombinations 3 2 2 = Some [[1, 0]]
   \<and> processWordReverse 3 ''aa'' [(''a'', [''bb''])] 2 2 = ([''abbb''], Returned)
   \<and> processWord ''aa'' [(''a'', [''bb''])] 2 2 = [''bbbb'']"
  by code_simp

text \<open>
  Claim C8. \<open>processWordReverse\<close> is not total. With the table \<open>a=\<close> (an empty replacement),
  the word \<open>aa\<close> and \<open>min = max = 2\<close> the offset is \<open>-1\<close> when the left occurrence is
  applied, and \<open>result[:actualStart]\<close> panics. With a key bound to an empty replacement
  list, \<open>pos.subs[0]\<close> panics; \<open>processWordSubstituteAllReverse\<close> checks \<open>len(subs) > 0\<close>
  before the same access and sends its variant.
\<close>

theorem processWordReverse_panics:
  "processWordReverse 3 ''aa'' [(''a'', [''''])] 2 2 = ([], Panicked SliceBoundsOutOfRange)
   \<and> processWordReverse 2 ''a'' [(''a'', [])] 1 1 = ([], Panicked IndexOutOfRange)
   \<and> processWordSubstituteAllReverse (\<lambda>m. m) ''a'' [(''a'', [])] 0 1 = [''a'']"
  by code_simp

text \<open>
  Claim C10. The pattern-level algorithms sort the patterns to fix the order of the
  traversal, but apply the selected replacements in the order in which Go ranges over the
  map \<open>currentSubs\<close>. With the table \<open>a=b\<close>, \<open>b=c\<close>, the word \<open>ab\<close> and \<open>min = max = 2\<close> the
  variant sent is \<open>cc\<close> when the entry of \<open>a\<close> is visited first and \<open>bc\<close> when the entry of
  \<open>b\<close> is visited first.
\<close>

theorem processWordSubstituteAll_depends_on_range_order:
  "processWordSubstituteAll (\<lambda>m. m) ''ab'' [(''a'', [''b'']), (''b'', [''c''])] 2 2 = [''cc'']
   \<and> processWordSubstituteAll rev ''ab'' [(''a'', [''b'']), (''b'', [''c''])] 2 2 = [''bc'']
   \<and> processWordSubstituteAllReverse (\<lambda>m. m) ''ab'' [(''a'', [''b'']), (''b'', [''c''])] 2 2
       = [''cc'']
   \<and> processWordSubstituteAllReverse rev ''ab'' [(''a'', [''b'']), (''b'', [''c''])] 2 2
       = [''bc'']"
  by code_simp

end
